theory Spec2Isabelle
  imports Main "HOL-Library.Sublist" "HOL-Library.Finite_Map"
begin

section \<open>Strings: the library calls of main.go on byte strings\<close>

text \<open>
  A Go string is a sequence of bytes, here a \<^typ>\<open>string\<close> (a list of 8-bit characters).
  The input file is taken as the list of lines that \<^verbatim>\<open>bufio.Scanner\<close> delivers (line
  terminators removed); opening, reading and writing files are not modelled (nor is a
  line too long for the scanner's buffer, a read error), so the only failure left is the
  one \<^verbatim>\<open>topologicalSort\<close> reports. Go's \<^verbatim>\<open>int\<close> is modelled by \<^typ>\<open>int\<close>: an in-degree
  counts lines of the input and cannot reach \<open>2^63\<close>.

  The library functions decode UTF-8. Three runes outside ASCII matter to the patterns
  of main.go and are modelled by their encodings: U+017F and U+212A, which \<^verbatim>\<open>(?i)\<close> folds
  with \<open>s\<close> and \<open>k\<close> (in a literal and in the class \<^verbatim>\<open>\w\<close>), and U+0130 and U+212A, which
  \<^verbatim>\<open>strings.ToLower\<close> maps to \<open>i\<close> and \<open>k\<close>. Every other byte above 0x7F stays as it is
  under \<open>ToLower\<close>: Go maps it to bytes above 0x7F again, which no search for an ASCII
  text can tell apart.
\<close>

definition inRange :: "char \<Rightarrow> char \<Rightarrow> char \<Rightarrow> bool" where
  "inRange lo hi c = ((of_char lo :: nat) \<le> of_char c \<and> (of_char c :: nat) \<le> of_char hi)"

definition isUpper :: "char \<Rightarrow> bool" where
  "isUpper c = inRange CHR ''A'' CHR ''Z'' c"

definition isLower :: "char \<Rightarrow> bool" where
  "isLower c = inRange CHR ''a'' CHR ''z'' c"

text \<open>The class \<^verbatim>\<open>\w\<close> of Go's regexp: \<^verbatim>\<open>[0-9A-Za-z_]\<close>.\<close>

definition isWord :: "char \<Rightarrow> bool" where
  "isWord c = (inRange CHR ''0'' CHR ''9'' c \<or> isUpper c \<or> c = CHR ''_'' \<or> isLower c)"

definition toLowerByte :: "char \<Rightarrow> char" where
  "toLowerByte c = (if isUpper c then char_of (of_char c + (32::nat)) else c)"

definition toUpperByte :: "char \<Rightarrow> char" where
  "toUpperByte c = (if isLower c then char_of (of_char c - (32::nat)) else c)"

definition kelvinSign :: string where
  "kelvinSign = [CHR 0xE2, CHR 0x84, CHR 0xAA]"

definition longS :: string where
  "longS = [CHR 0xC5, CHR 0xBF]"

definition dottedI :: string where
  "dottedI = [CHR 0xC4, CHR 0xB0]"

text \<open>\<^verbatim>\<open>strings.ToLower\<close>.\<close>

fun ToLower :: "string \<Rightarrow> string" where
  "ToLower [] = []"
| "ToLower (c # s) =
     (if prefix kelvinSign (c # s) then CHR ''k'' # ToLower (drop 2 s)
      else if prefix dottedI (c # s) then CHR ''i'' # ToLower (drop 1 s)
      else toLowerByte c # ToLower s)"

text \<open>\<^verbatim>\<open>strings.Contains(s, substr)\<close>.\<close>

definition Contains :: "string \<Rightarrow> string \<Rightarrow> bool" where
  "Contains s substr = sublist substr s"

text \<open>
  \<^verbatim>\<open>unicode.IsSpace\<close>: the UTF-8 encodings of the white-space runes (tab, LF, VT, FF, CR,
  space, U+0085, U+00A0, U+1680, U+2000 to U+200A, U+2028, U+2029, U+202F, U+205F, U+3000).
\<close>

definition spaceRunes :: "string list" where
  "spaceRunes =
     [[CHR 0x09], [CHR 0x0A], [CHR 0x0B], [CHR 0x0C], [CHR 0x0D], [CHR 0x20],
      [CHR 0xC2, CHR 0x85], [CHR 0xC2, CHR 0xA0], [CHR 0xE1, CHR 0x9A, CHR 0x80],
      [CHR 0xE2, CHR 0x80, CHR 0x80], [CHR 0xE2, CHR 0x80, CHR 0x81],
      [CHR 0xE2, CHR 0x80, CHR 0x82], [CHR 0xE2, CHR 0x80, CHR 0x83],
      [CHR 0xE2, CHR 0x80, CHR 0x84], [CHR 0xE2, CHR 0x80, CHR 0x85],
      [CHR 0xE2, CHR 0x80, CHR 0x86], [CHR 0xE2, CHR 0x80, CHR 0x87],
      [CHR 0xE2, CHR 0x80, CHR 0x88], [CHR 0xE2, CHR 0x80, CHR 0x89],
      [CHR 0xE2, CHR 0x80, CHR 0x8A], [CHR 0xE2, CHR 0x80, CHR 0xA8],
      [CHR 0xE2, CHR 0x80, CHR 0xA9], [CHR 0xE2, CHR 0x80, CHR 0xAF],
      [CHR 0xE2, CHR 0x81, CHR 0x9F], [CHR 0xE3, CHR 0x80, CHR 0x80]]"

text \<open>Removing from the front of \<open>s\<close> every leading rune whose encoding is in \<open>ws\<close>.\<close>

fun trimFront :: "string list \<Rightarrow> string \<Rightarrow> string" where
  "trimFront ws [] = []"
| "trimFront ws (c # s) =
     (case find (\<lambda>w. prefix w (c # s)) ws of
        None \<Rightarrow> c # s
      | Some w \<Rightarrow> trimFront ws (drop (length w - 1) s))"

text \<open>
  \<^verbatim>\<open>strings.TrimSpace\<close>: leading white space is removed, then trailing white space (the
  last rune is decoded backwards, which finds exactly the encodings that end the string).
\<close>

definition TrimSpace :: "string \<Rightarrow> string" where
  "TrimSpace s = rev (trimFront (map rev spaceRunes) (rev (trimFront spaceRunes s)))"

text \<open>
  The byte sequences that a literal character of a \<^verbatim>\<open>(?i)\<close> pattern matches (Unicode simple
  case folding, as Go's regexp applies it).
\<close>

definition foldAlts :: "char \<Rightarrow> string list" where
  "foldAlts c =
     (if isUpper c \<or> isLower c then
        [[toLowerByte c], [toUpperByte c]] @
        (if toLowerByte c = CHR ''s'' then [longS]
         else if toLowerByte c = CHR ''k'' then [kelvinSign] else [])
      else [[c]])"

text \<open>Matching a case-folded literal at the start of \<open>s\<close>: the rest of \<open>s\<close> after it.\<close>

fun matchFold :: "string \<Rightarrow> string \<Rightarrow> string option" where
  "matchFold [] s = Some s"
| "matchFold (p # ps) s =
     (case find (\<lambda>a. prefix a s) (foldAlts p) of
        None \<Rightarrow> None
      | Some a \<Rightarrow> matchFold ps (drop (length a) s))"

text \<open>
  The longest prefix of \<open>s\<close> that \<^verbatim>\<open>\w+\<close> matches. Under \<^verbatim>\<open>(?i)\<close> Go's regexp closes a
  character class under case folding, so the class holds U+017F and U+212A beside the
  ASCII word characters.
\<close>

fun wordRun :: "string \<Rightarrow> string" where
  "wordRun [] = []"
| "wordRun (c # s) =
     (if isWord c then c # wordRun s
      else if prefix longS (c # s) then longS @ wordRun (drop 1 s)
      else if prefix kelvinSign (c # s) then kelvinSign @ wordRun (drop 2 s)
      else [])"

text \<open>
  Both patterns of main.go are \<^verbatim>\<open>(?i)LIT`?(\w+)`?\<close> for a literal \<open>LIT\<close>. \<open>submatchAt\<close> is
  the match anchored at the start of \<open>s\<close>, giving group 1: the literal, one optional
  backquote, the longest run of word characters, which must not be empty (a backquote
  is no word character, so giving the optional backquote back never helps).
\<close>

definition submatchAt :: "string \<Rightarrow> string \<Rightarrow> string option" where
  "submatchAt lit s =
     (case matchFold lit s of
        None \<Rightarrow> None
      | Some r \<Rightarrow>
          (let name = wordRun (case r of [] \<Rightarrow> [] | c # t \<Rightarrow> if c = CHR 0x60 then t else c # t)
           in if name = [] then None else Some name))"

text \<open>
  \<^verbatim>\<open>regexp.MustCompile(pattern).FindStringSubmatch(s)\<close>, reduced to what main.go reads from
  it: \<open>None\<close> when there is no match (\<^verbatim>\<open>len(matches) > 1\<close> fails), else \<^verbatim>\<open>matches[1]\<close> of
  the leftmost match.
\<close>

fun FindStringSubmatch :: "string \<Rightarrow> string \<Rightarrow> string option" where
  "FindStringSubmatch lit [] = submatchAt lit []"
| "FindStringSubmatch lit (c # s) =
     (case submatchAt lit (c # s) of
        Some name \<Rightarrow> Some name
      | None \<Rightarrow> FindStringSubmatch lit s)"

text \<open>The literal parts of \<^verbatim>\<open>TABLE_PATTERN\<close> and \<^verbatim>\<open>REFERENCES_PATTERN\<close>.\<close>

definition TABLE_PATTERN :: string where
  "TABLE_PATTERN = ''CREATE TABLE ''"

definition REFERENCES_PATTERN :: string where
  "REFERENCES_PATTERN = ''REFERENCES ''"

section \<open>parseDDL\<close>

type_synonym graph_map = "(string, string list) fmap"
type_synonym degree_map = "(string, int) fmap"

text \<open>Reading a Go map at a key it may not hold gives the zero value.\<close>

definition children :: "graph_map \<Rightarrow> string \<Rightarrow> string list" where
  "children g p = (case fmlookup g p of None \<Rightarrow> [] | Some cs \<Rightarrow> cs)"

definition degree :: "degree_map \<Rightarrow> string \<Rightarrow> int" where
  "degree d t = (case fmlookup d t of None \<Rightarrow> 0 | Some n \<Rightarrow> n)"

record parse_state =
  graph :: graph_map
  inDegree :: degree_map
  tableOrder :: "string list"
  currentTable :: string

definition parse_init :: parse_state where
  "parse_init = \<lparr>graph = fmempty, inDegree = fmempty, tableOrder = [], currentTable = []\<rparr>"

text \<open>Lines 46 to 56: a \<^verbatim>\<open>CREATE TABLE\<close> line.\<close>

definition onCreateTable :: "string \<Rightarrow> parse_state \<Rightarrow> parse_state" where
  "onCreateTable line st =
     (case FindStringSubmatch TABLE_PATTERN line of
        None \<Rightarrow> st
      | Some name \<Rightarrow>
          st\<lparr>currentTable := name,
             tableOrder := tableOrder st @ [name],
             graph := (if fmlookup (graph st) name = None then fmupd name [] (graph st) else graph st),
             inDegree := (if fmlookup (inDegree st) name = None then fmupd name 0 (inDegree st)
                          else inDegree st)\<rparr>)"

text \<open>Lines 59 to 68: a foreign-key line.\<close>

definition onForeignKey :: "string \<Rightarrow> parse_state \<Rightarrow> parse_state" where
  "onForeignKey line st =
     (if Contains (ToLower line) ''foreign key'' then
        (case FindStringSubmatch REFERENCES_PATTERN line of
           None \<Rightarrow> st
         | Some parentTable \<Rightarrow>
             if currentTable st \<noteq> [] then
               st\<lparr>graph := fmupd parentTable (children (graph st) parentTable @ [currentTable st]) (graph st),
                  inDegree := fmupd (currentTable st) (degree (inDegree st) (currentTable st) + 1)
                                (inDegree st)\<rparr>
             else st)
      else st)"

definition parseLine :: "parse_state \<Rightarrow> string \<Rightarrow> parse_state" where
  "parseLine st text = (let line = TrimSpace text in onForeignKey line (onCreateTable line st))"

definition scanDDL :: "string list \<Rightarrow> parse_state" where
  "scanDDL lines = foldl parseLine parse_init lines"

definition parseDDL :: "string list \<Rightarrow> graph_map \<times> degree_map \<times> string list" where
  "parseDDL lines = (let st = scanDDL lines in (graph st, inDegree st, tableOrder st))"

section \<open>topologicalSort\<close>

datatype error = CyclicDependency

text \<open>Lines 97 to 102: one dependent of the table taken from the queue.\<close>

definition relax :: "degree_map \<times> string list \<Rightarrow> string \<Rightarrow> degree_map \<times> string list" where
  "relax s dependent =
     (case s of (d, queue) \<Rightarrow>
        (let d' = fmupd dependent (degree d dependent - 1) d
         in (d', if degree d' dependent = 0 then queue @ [dependent] else queue)))"

text \<open>Lines 92 to 103: the queue loop.\<close>

function kahnLoop :: "graph_map \<Rightarrow> degree_map \<Rightarrow> string list \<Rightarrow> string list \<Rightarrow> string list" where
  "kahnLoop g d [] sortedTables = sortedTables"
| "kahnLoop g d (current # queue) sortedTables =
     (case foldl relax (d, queue) (children g current) of
        (d', queue') \<Rightarrow> kahnLoop g d' queue' (sortedTables @ [current]))"
  by pat_completeness auto

text \<open>
  Lines 80 to 112. Go visits the keys of a map in an order that changes from run to run,
  so the order in which \<^verbatim>\<open>range inDegree\<close> delivers them is the argument \<open>ks\<close>, any
  enumeration of the keys (\<open>rangeOrder\<close>). Exiting with the cyclic-dependency message is
  the value \<open>Inl CyclicDependency\<close>.
\<close>

definition rangeOrder :: "string list \<Rightarrow> degree_map \<Rightarrow> bool" where
  "rangeOrder ks m = (distinct ks \<and> set ks = fmdom' m)"

definition topologicalSort :: "string list \<Rightarrow> graph_map \<Rightarrow> degree_map \<Rightarrow> error + string list" where
  "topologicalSort ks g d =
     (let queue = filter (\<lambda>table. fmlookup d table = Some 0) ks;
          sortedTables = kahnLoop g d queue []
      in if length sortedTables \<noteq> card (fmdom' g) then Inl CyclicDependency else Inr sortedTables)"

section \<open>reorderDDL\<close>

record split_state =
  ddlContent :: "(string, string) fmap"
  blockTable :: string
  currentDDL :: string

definition split_init :: split_state where
  "split_init = \<lparr>ddlContent = fmempty, blockTable = [], currentDDL = []\<rparr>"

definition newline :: string where
  "newline = [CHR 0x0A]"

text \<open>Lines 129 to 143, one line of the input; \<open>blockTable\<close> is the loop's \<^verbatim>\<open>currentTable\<close>.\<close>

definition splitLine :: "split_state \<Rightarrow> string \<Rightarrow> split_state" where
  "splitLine st line =
     (let st1 =
        (case FindStringSubmatch TABLE_PATTERN line of
           None \<Rightarrow> st
         | Some name \<Rightarrow>
             (if blockTable st \<noteq> []
              then st\<lparr>ddlContent := fmupd (blockTable st) (currentDDL st) (ddlContent st),
                      currentDDL := []\<rparr>
              else st)\<lparr>blockTable := name\<rparr>)
      in if blockTable st1 \<noteq> [] then st1\<lparr>currentDDL := currentDDL st1 @ line @ newline\<rparr> else st1)"

text \<open>Lines 129 to 148: the block of every table.\<close>

definition splitDDL :: "string list \<Rightarrow> (string, string) fmap" where
  "splitDDL lines =
     (let st = foldl splitLine split_init lines
      in if blockTable st \<noteq> [] then fmupd (blockTable st) (currentDDL st) (ddlContent st)
         else ddlContent st)"

text \<open>Lines 158 to 168: the bytes written to the output file.\<close>

definition writeBlocks :: "(string, string) fmap \<Rightarrow> string list \<Rightarrow> string" where
  "writeBlocks content sortedTables =
     concat (map (\<lambda>table. case fmlookup content table of None \<Rightarrow> [] | Some ddl \<Rightarrow> ddl) sortedTables)"

definition reorderDDL :: "string list \<Rightarrow> string list \<Rightarrow> string" where
  "reorderDDL lines sortedTables = writeBlocks (splitDDL lines) sortedTables"

section \<open>processSQL\<close>

text \<open>
  Lines 173 to 179, with the content of the output file as the result. When the sort
  fails the program has exited before \<^verbatim>\<open>reorderDDL\<close> creates the file.
\<close>

definition processSQL :: "string list \<Rightarrow> string list \<Rightarrow> error + string" where
  "processSQL ks lines =
     (case parseDDL lines of
        (g, d, order) \<Rightarrow>
          (case topologicalSort ks g d of
             Inl e \<Rightarrow> Inl e
           | Inr sortedTables \<Rightarrow> Inr (reorderDDL lines sortedTables)))"

section \<open>Notions used to state the properties\<close>

text \<open>The tables whose counter is still positive (the measure of the queue loop).\<close>

definition pending :: "degree_map \<Rightarrow> string set" where
  "pending d = {t. 0 < degree d t}"

text \<open>
  The edges of the dependency graph, the number of edges into a table that start at a
  table outside \<open>s\<close>, and the number of all edges into a table.
\<close>

definition edges :: "graph_map \<Rightarrow> (string \<times> string) set" where
  "edges g = {(p, c). c \<in> set (children g p)}"

definition remaining :: "graph_map \<Rightarrow> string list \<Rightarrow> string \<Rightarrow> nat" where
  "remaining g s t = (\<Sum>p \<in> fmdom' g - set s. count_list (children g p) t)"

definition inEdges :: "graph_map \<Rightarrow> string \<Rightarrow> nat" where
  "inEdges g t = remaining g [] t"

text \<open>
  What \<open>parseDDL\<close> establishes: every counter is the number of edges into its table, every
  table with a counter has an entry in the graph, and every dependent has a counter.
\<close>

definition consistent :: "graph_map \<Rightarrow> degree_map \<Rightarrow> bool" where
  "consistent g d =
     ((\<forall>t. degree d t = int (inEdges g t)) \<and> fmdom' d \<subseteq> fmdom' g \<and>
      (\<forall>p c. c \<in> set (children g p) \<longrightarrow> c \<in> fmdom' d))"

definition parseInv :: "parse_state \<Rightarrow> bool" where
  "parseInv st =
     (consistent (graph st) (inDegree st) \<and>
      (currentTable st \<noteq> [] \<longrightarrow> currentTable st \<in> fmdom' (inDegree st)) \<and>
      set (tableOrder st) = fmdom' (inDegree st))"

text \<open>
  The invariant of the queue loop: \<open>s\<close> is the result so far and \<open>q\<close> the queue; a counter
  is the number of edges from tables not yet in the result; the tables with counter 0 are
  those of the result and the queue; every parent of a table in the result stands before it.
\<close>

definition kahnInv :: "graph_map \<Rightarrow> string set \<Rightarrow> degree_map \<Rightarrow> string list \<Rightarrow> string list \<Rightarrow> bool" where
  "kahnInv g D d q s =
     (distinct (s @ q) \<and> set (s @ q) \<subseteq> D \<and>
      (\<forall>t. degree d t = int (remaining g s t)) \<and>
      (\<forall>t \<in> D. t \<in> set (s @ q) \<longleftrightarrow> degree d t = 0) \<and>
      (\<forall>i < length s. \<forall>p. s ! i \<in> set (children g p) \<longrightarrow> p \<in> set (take i s)))"

text \<open>
  The result sequence of the queue loop before its length is compared with the size of
  the graph, and the position of the first occurrence of a table in a sequence.
\<close>

definition sortedSoFar :: "string list \<Rightarrow> graph_map \<Rightarrow> degree_map \<Rightarrow> string list" where
  "sortedSoFar ks g d = kahnLoop g d (filter (\<lambda>table. fmlookup d table = Some 0) ks) []"

definition indexOf :: "string list \<Rightarrow> string \<Rightarrow> nat" where
  "indexOf xs x = length (takeWhile (\<lambda>y. y \<noteq> x) xs)"

text \<open>
  Bytes that are neither word characters nor backquotes nor the last byte of the encoding
  of U+017F or U+212A, and literals all of whose
  characters match single bytes only (used to show that trimming a line does not change
  what \<^verbatim>\<open>TABLE_PATTERN\<close> finds in it).
\<close>

definition inert :: "char \<Rightarrow> bool" where
  "inert b = (\<not> isWord b \<and> b \<noteq> CHR 0x60 \<and> b \<noteq> CHR 0xBF \<and> b \<noteq> CHR 0xAA)"

definition singleByte :: "string \<Rightarrow> bool" where
  "singleByte lit = (\<forall>p \<in> set lit. \<forall>a \<in> set (foldAlts p). length a = 1)"


definition linesText :: "string list \<Rightarrow> string" where
  "linesText ls = concat (map (\<lambda>l. l @ newline) ls)"

definition afterPreamble :: "string list \<Rightarrow> string list" where
  "afterPreamble ls = dropWhile (\<lambda>l. FindStringSubmatch TABLE_PATTERN l = None) ls"

text \<open>
  The block map of \<open>reorderDDL\<close> once the open block is stored (lines 146 to 148), and
  the invariant of its loop: no text is collected while no block is open.
\<close>

definition sealed :: "split_state \<Rightarrow> (string, string) fmap" where
  "sealed st =
     (if blockTable st \<noteq> [] then fmupd (blockTable st) (currentDDL st) (ddlContent st)
      else ddlContent st)"



section \<open>Termination of the queue loop\<close>

text \<open>
  Each round of the loop takes one table from the queue, and a table enters the queue
  only when its counter goes from 1 to 0: the length of the queue plus the number of
  tables with a positive counter decreases.
\<close>

lemma finite_pending: "finite (pending d)"
proof (rule finite_subset)
  show "pending d \<subseteq> fmdom' d"
    by (auto simp: pending_def degree_def fmlookup_dom'_iff split: option.splits)
qed simp

lemma degree_fmupd: "degree (fmupd k v d) t = (if k = t then v else degree d t)"
  by (simp add: degree_def)

lemma relax_potential:
  assumes "relax (d, q) x = (d', q')"
  shows "length q' + card (pending d') \<le> length q + card (pending d)"
proof (cases "degree d x = 1")
  case True
  then have d': "d' = fmupd x 0 d" and q': "q' = q @ [x]"
    using assms by (auto simp: relax_def Let_def degree_fmupd)
  have "pending d' = pending d - {x}"
    using True by (auto simp: pending_def d' degree_fmupd)
  moreover have x: "x \<in> pending d"
    using True by (simp add: pending_def)
  ultimately have "card (pending d') = card (pending d) - 1"
    by (simp add: finite_pending)
  moreover have "card (pending d) > 0"
    using x finite_pending[of d] card_gt_0_iff by blast
  ultimately show ?thesis by (simp add: q')
next
  case False
  then have d': "d' = fmupd x (degree d x - 1) d" and q': "q' = q"
    using assms by (auto simp: relax_def Let_def degree_fmupd)
  have "pending d' \<subseteq> pending d"
    by (auto simp: pending_def d' degree_fmupd split: if_splits)
  then have "card (pending d') \<le> card (pending d)"
    by (rule card_mono[OF finite_pending])
  then show ?thesis by (simp add: q')
qed

lemma foldl_relax_potential:
  "foldl relax (d, q) xs = (d', q') \<Longrightarrow>
   length q' + card (pending d') \<le> length q + card (pending d)"
proof (induction xs arbitrary: d q)
  case Nil
  then show ?case by simp
next
  case (Cons x xs)
  obtain d1 q1 where s: "relax (d, q) x = (d1, q1)"
    by (cases "relax (d, q) x")
  from Cons.prems have "foldl relax (d1, q1) xs = (d', q')"
    by (simp add: s)
  from Cons.IH[OF this] relax_potential[OF s] show ?case
    by linarith
qed

termination kahnLoop
  apply (relation "measure (\<lambda>(g, d, q, s). length q + card (pending d))")
   apply simp
  apply (clarsimp dest!: sym[of "(_, _)" "foldl _ _ _"] foldl_relax_potential)
  done

section \<open>The queue loop keeps its invariant\<close>

lemma children_outside: "p \<notin> fmdom' g \<Longrightarrow> children g p = []"
  by (auto simp: children_def fmlookup_dom'_iff split: option.splits)

lemma relax_eq:
  "relax (d, q) x =
     (fmupd x (degree d x - 1) d, if degree d x = 1 then q @ [x] else q)"
  by (simp add: relax_def Let_def degree_fmupd)

lemma foldl_relax:
  assumes "\<forall>t \<in> set xs. int (count_list xs t) \<le> degree d t"
  shows "\<exists>d' news. foldl relax (d, q) xs = (d', q @ news) \<and> distinct news \<and>
           set news = {t \<in> set xs. degree d t = int (count_list xs t)} \<and>
           (\<forall>t. degree d' t = degree d t - int (count_list xs t))"
  using assms
proof (induction xs rule: rev_induct)
  case Nil
  then show ?case by simp
next
  case (snoc x xs)
  have "\<forall>t \<in> set xs. int (count_list xs t) \<le> degree d t"
  proof
    fix t assume "t \<in> set xs"
    then have "int (count_list (xs @ [x]) t) \<le> degree d t" using snoc.prems by simp
    then show "int (count_list xs t) \<le> degree d t" by (simp split: if_splits)
  qed
  from snoc.IH[OF this] obtain d1 news1 where
    f: "foldl relax (d, q) xs = (d1, q @ news1)" and dn: "distinct news1" and
    sn: "set news1 = {t \<in> set xs. degree d t = int (count_list xs t)}" and
    dg: "\<forall>t. degree d1 t = degree d t - int (count_list xs t)"
    by blast
  have x: "int (count_list xs x) + 1 \<le> degree d x"
    using snoc.prems by simp
  then have xn: "x \<notin> set news1" using sn by auto
  let ?d' = "fmupd x (degree d1 x - 1) d1"
  let ?news = "if degree d1 x = 1 then news1 @ [x] else news1"
  have "foldl relax (d, q) (xs @ [x]) = (?d', q @ ?news)"
    by (simp add: f relax_eq)
  moreover have "distinct ?news" using dn xn by simp
  moreover have "set ?news = {t \<in> set (xs @ [x]). degree d t = int (count_list (xs @ [x]) t)}"
    using sn x dg by auto
  moreover have "\<forall>t. degree ?d' t = degree d t - int (count_list (xs @ [x]) t)"
    using dg by (simp add: degree_fmupd)
  ultimately show ?case by blast
qed

lemma count_list_pos: "x \<in> set xs \<Longrightarrow> 0 < count_list xs x"
  by (metis count_list_0_iff gr0I)

lemma remaining_snoc:
  assumes "c \<in> fmdom' g" "c \<notin> set s"
  shows "remaining g s t = count_list (children g c) t + remaining g (s @ [c]) t"
proof -
  have "fmdom' g - set (s @ [c]) = (fmdom' g - set s) - {c}" by auto
  moreover have "finite (fmdom' g - set s)" "c \<in> fmdom' g - set s"
    using assms by auto
  ultimately show ?thesis
    unfolding remaining_def by (simp add: sum.remove)
qed

lemma remaining_zero:
  assumes "remaining g s t = 0" "t \<in> set (children g p)"
  shows "p \<in> set s"
proof (rule ccontr)
  assume "p \<notin> set s"
  have "p \<in> fmdom' g" using assms(2) children_outside by fastforce
  then have "remaining g s t = count_list (children g p) t + remaining g (s @ [p]) t"
    using \<open>p \<notin> set s\<close> by (rule remaining_snoc)
  moreover have "count_list (children g p) t > 0" using assms(2) by (rule count_list_pos)
  ultimately show False using assms(1) by simp
qed

lemma kahn_step:
  assumes con: "consistent g d0" and D: "D = fmdom' d0"
    and inv: "kahnInv g D d (c # q) s"
    and f: "foldl relax (d, q) (children g c) = (d', q')"
  shows "kahnInv g D d' q' (s @ [c])"
proof -
  have dist: "distinct (s @ c # q)" and sub: "set (s @ c # q) \<subseteq> D"
    and deg: "\<And>t. degree d t = int (remaining g s t)"
    and zero: "\<And>t. t \<in> D \<Longrightarrow> t \<in> set (s @ c # q) \<longleftrightarrow> degree d t = 0"
    and ord: "\<And>i p. i < length s \<Longrightarrow> s ! i \<in> set (children g p) \<Longrightarrow> p \<in> set (take i s)"
    using inv unfolding kahnInv_def by blast+
  have chD: "\<And>p t. t \<in> set (children g p) \<Longrightarrow> t \<in> D"
    using con D unfolding consistent_def by blast
  have cN: "c \<in> fmdom' g" using sub con D unfolding consistent_def by auto
  have cs: "c \<notin> set s" using dist by auto
  have rem: "\<And>t. remaining g s t = count_list (children g c) t + remaining g (s @ [c]) t"
    using cN cs by (rule remaining_snoc)
  have H: "\<forall>t \<in> set (children g c). int (count_list (children g c) t) \<le> degree d t"
    using deg rem by simp
  from foldl_relax[OF H, of q] f obtain news where
    q': "q' = q @ news" and dn: "distinct news" and
    sn: "set news = {t \<in> set (children g c). degree d t = int (count_list (children g c) t)}" and
    dg: "\<And>t. degree d' t = degree d t - int (count_list (children g c) t)"
    by auto
  have newsD: "set news \<subseteq> D" using sn chD by auto
  have fresh: "set news \<inter> set (s @ c # q) = {}"
  proof -
    { fix t assume t: "t \<in> set news" "t \<in> set (s @ c # q)"
      then have "t \<in> set (children g c)" and e: "degree d t = int (count_list (children g c) t)"
        using sn by auto
      then have "count_list (children g c) t > 0" by (simp add: count_list_pos)
      then have "degree d t \<noteq> 0" using e by simp
      moreover have "t \<in> D" using t(1) newsD by auto
      ultimately have False using zero t(2) by blast }
    then show ?thesis by blast
  qed
  have 1: "distinct ((s @ [c]) @ q')"
    using dist dn fresh by (auto simp: q')
  have 2: "set ((s @ [c]) @ q') \<subseteq> D"
    using sub newsD by (auto simp: q')
  have 3: "\<forall>t. degree d' t = int (remaining g (s @ [c]) t)"
    using dg deg rem by simp
  have 4: "\<forall>t \<in> D. t \<in> set ((s @ [c]) @ q') \<longleftrightarrow> degree d' t = 0"
  proof
    fix t assume tD: "t \<in> D"
    have le: "int (count_list (children g c) t) \<le> degree d t"
      using deg rem by simp
    show "t \<in> set ((s @ [c]) @ q') \<longleftrightarrow> degree d' t = 0"
    proof
      assume "t \<in> set ((s @ [c]) @ q')"
      then consider "t \<in> set (s @ c # q)" | "t \<in> set news" by (auto simp: q')
      then show "degree d' t = 0"
      proof cases
        case 1
        then have "degree d t = 0" using zero tD by blast
        then show ?thesis using le dg by simp
      next
        case 2
        then show ?thesis using sn dg by simp
      qed
    next
      assume z: "degree d' t = 0"
      then have e: "degree d t = int (count_list (children g c) t)" using dg by simp
      show "t \<in> set ((s @ [c]) @ q')"
      proof (cases "t \<in> set (children g c)")
        case True
        then have "t \<in> set news" using sn e by simp
        then show ?thesis by (simp add: q')
      next
        case False
        then have "degree d t = 0" using e by (simp add: count_list_0_iff)
        then have "t \<in> set (s @ c # q)" using zero tD by blast
        then show ?thesis by (auto simp: q')
      qed
    qed
  qed
  have 5: "\<forall>i < length (s @ [c]). \<forall>p. (s @ [c]) ! i \<in> set (children g p) \<longrightarrow> p \<in> set (take i (s @ [c]))"
  proof (intro allI impI)
    fix i p assume i: "i < length (s @ [c])" and e: "(s @ [c]) ! i \<in> set (children g p)"
    show "p \<in> set (take i (s @ [c]))"
    proof (cases "i < length s")
      case True
      then show ?thesis using ord[of i p] e by (simp add: nth_append)
    next
      case False
      then have il: "i = length s" using i by simp
      then have cp: "c \<in> set (children g p)" using e by simp
      have "c \<in> D" using sub by simp
      then have "degree d c = 0" using zero[of c] by simp
      then have "remaining g s c = 0" using deg by simp
      then have "p \<in> set s" using cp by (rule remaining_zero)
      then show ?thesis using il by simp
    qed
  qed
  show ?thesis unfolding kahnInv_def using 1 2 3 4 5 by blast
qed

lemma kahnLoop_inv:
  "consistent g d0 \<Longrightarrow> kahnInv g (fmdom' d0) d q s \<Longrightarrow>
   \<exists>dF. kahnInv g (fmdom' d0) dF [] (kahnLoop g d q s)"
proof (induction g d q s rule: kahnLoop.induct)
  case (1 g d sortedTables)
  then show ?case by auto
next
  case (2 g d current queue sortedTables)
  obtain d' q' where f: "foldl relax (d, queue) (children g current) = (d', q')"
    by (cases "foldl relax (d, queue) (children g current)")
  have "kahnInv g (fmdom' d0) d' q' (sortedTables @ [current])"
    using kahn_step[OF "2.prems"(1) refl "2.prems"(2) f] .
  from "2.IH"[OF f[symmetric] "2.prems"(1) this] show ?case by (simp add: f)
qed

section \<open>What parseDDL establishes\<close>

lemma inEdges_superset:
  assumes "finite B" "fmdom' g \<subseteq> B"
  shows "inEdges g t = (\<Sum>p \<in> B. count_list (children g p) t)"
  unfolding inEdges_def remaining_def
  using assms by (auto intro!: sum.mono_neutral_left simp: children_outside)

lemma children_fmupd:
  "children (fmupd k v g) p = (if k = p then v else children g p)"
  by (simp add: children_def)

lemma children_register: "fmlookup g name = None \<Longrightarrow> children (fmupd name [] g) = children g"
  by (auto simp: children_def fun_eq_iff)

lemma degree_register: "fmlookup d name = None \<Longrightarrow> degree (fmupd name 0 d) = degree d"
  by (auto simp: degree_def fun_eq_iff)

lemma inEdges_register:
  assumes "fmlookup g name = None"
  shows "inEdges (fmupd name [] g) t = inEdges g t"
proof -
  have "inEdges g t = (\<Sum>p \<in> insert name (fmdom' g). count_list (children g p) t)"
    by (rule inEdges_superset) auto
  moreover have "inEdges (fmupd name [] g) t =
      (\<Sum>p \<in> insert name (fmdom' g). count_list (children (fmupd name [] g) p) t)"
    by (rule inEdges_superset) auto
  ultimately show ?thesis by (simp add: children_register[OF assms])
qed

lemma inEdges_add_edge:
  "inEdges (fmupd p (children g p @ [c]) g) t = inEdges g t + (if t = c then 1 else 0)"
proof -
  let ?g' = "fmupd p (children g p @ [c]) g"
  let ?B = "insert p (fmdom' g)"
  have fin: "finite ?B" and pB: "p \<in> ?B" by auto
  have "inEdges ?g' t = (\<Sum>q \<in> ?B. count_list (children ?g' q) t)"
    by (rule inEdges_superset) auto
  also have "\<dots> = count_list (children ?g' p) t + (\<Sum>q \<in> ?B - {p}. count_list (children ?g' q) t)"
    by (rule sum.remove[OF fin pB])
  also have "(\<Sum>q \<in> ?B - {p}. count_list (children ?g' q) t) = (\<Sum>q \<in> ?B - {p}. count_list (children g q) t)"
    by (rule sum.cong) (auto simp: children_fmupd)
  also have "count_list (children ?g' p) t = count_list (children g p) t + (if t = c then 1 else 0)"
    by (simp add: children_fmupd)
  finally have "inEdges ?g' t =
      (count_list (children g p) t + (\<Sum>q \<in> ?B - {p}. count_list (children g q) t)) + (if t = c then 1 else 0)"
    by simp
  moreover have "inEdges g t = count_list (children g p) t + (\<Sum>q \<in> ?B - {p}. count_list (children g q) t)"
    using inEdges_superset[of ?B g t] sum.remove[OF fin pB, of "\<lambda>q. count_list (children g q) t"] by auto
  ultimately show ?thesis by simp
qed

lemma parseInv_onCreateTable: "parseInv st \<Longrightarrow> parseInv (onCreateTable line st)"
proof (cases "FindStringSubmatch TABLE_PATTERN line")
  case None
  then show "parseInv st \<Longrightarrow> ?thesis" by (simp add: onCreateTable_def)
next
  case (Some name)
  assume inv: "parseInv st"
  let ?g = "if fmlookup (graph st) name = None then fmupd name [] (graph st) else graph st"
  let ?d = "if fmlookup (inDegree st) name = None then fmupd name 0 (inDegree st) else inDegree st"
  have st': "onCreateTable line st = st\<lparr>currentTable := name, tableOrder := tableOrder st @ [name],
      graph := ?g, inDegree := ?d\<rparr>"
    by (simp add: onCreateTable_def Some)
  have ch: "children ?g = children (graph st)" by (simp add: children_register)
  have dg: "degree ?d = degree (inDegree st)" by (simp add: degree_register)
  have ie: "\<And>t. inEdges ?g t = inEdges (graph st) t" by (simp add: inEdges_register)
  have dd: "fmdom' ?d = insert name (fmdom' (inDegree st))"
    by (auto simp: fmlookup_dom'_iff)
  have dgr: "fmdom' ?g = insert name (fmdom' (graph st))"
    by (auto simp: fmlookup_dom'_iff)
  have "consistent ?g ?d"
    using inv unfolding parseInv_def consistent_def ch dg ie dd dgr by auto
  then show ?thesis
    using inv unfolding parseInv_def st' by (simp add: dd)
qed

lemma parseInv_onForeignKey: "parseInv st \<Longrightarrow> parseInv (onForeignKey line st)"
proof -
  assume inv: "parseInv st"
  show ?thesis
  proof (cases "Contains (ToLower line) ''foreign key'' \<and> currentTable st \<noteq> []")
    case False
    then show ?thesis using inv by (auto simp: onForeignKey_def split: option.splits)
  next
    case True
    show ?thesis
    proof (cases "FindStringSubmatch REFERENCES_PATTERN line")
      case None
      then show ?thesis using inv by (simp add: onForeignKey_def)
    next
      case (Some parent)
      let ?c = "currentTable st"
      let ?g = "fmupd parent (children (graph st) parent @ [?c]) (graph st)"
      let ?d = "fmupd ?c (degree (inDegree st) ?c + 1) (inDegree st)"
      have st': "onForeignKey line st = st\<lparr>graph := ?g, inDegree := ?d\<rparr>"
        using True by (simp add: onForeignKey_def Some)
      have cD: "?c \<in> fmdom' (inDegree st)" using inv True by (simp add: parseInv_def)
      then have dd: "fmdom' ?d = fmdom' (inDegree st)" by auto
      have con: "consistent (graph st) (inDegree st)" using inv by (simp add: parseInv_def)
      have "consistent ?g ?d"
        unfolding consistent_def
      proof (intro conjI allI impI)
        fix t show "degree ?d t = int (inEdges ?g t)"
          using con by (simp add: consistent_def degree_fmupd inEdges_add_edge)
      next
        show "fmdom' ?d \<subseteq> fmdom' ?g" using con dd by (auto simp: consistent_def)
      next
        fix p c assume "c \<in> set (children ?g p)"
        then show "c \<in> fmdom' ?d"
          using con cD unfolding dd by (auto simp: consistent_def children_fmupd split: if_splits)
      qed
      then show ?thesis using inv cD True unfolding parseInv_def st' by (simp add: insert_absorb)
    qed
  qed
qed

lemma parseInv_init: "parseInv parse_init"
  by (simp add: parseInv_def parse_init_def consistent_def inEdges_def remaining_def degree_def children_def)

lemma parseInv_foldl: "parseInv st \<Longrightarrow> parseInv (foldl parseLine st lines)"
  by (induction lines arbitrary: st)
     (simp_all add: parseLine_def Let_def parseInv_onCreateTable parseInv_onForeignKey)

lemma parseInv_scanDDL: "parseInv (scanDDL lines)"
  unfolding scanDDL_def by (rule parseInv_foldl[OF parseInv_init])

lemma parseDDL_consistent: "parseDDL lines = (g, d, order) \<Longrightarrow> consistent g d"
  using parseInv_scanDDL[of lines] by (auto simp: parseDDL_def Let_def parseInv_def)

section \<open>The result of the queue loop\<close>

lemma topologicalSort_eq:
  "topologicalSort ks g d =
     (if length (sortedSoFar ks g d) \<noteq> card (fmdom' g) then Inl CyclicDependency
      else Inr (sortedSoFar ks g d))"
  by (simp add: topologicalSort_def sortedSoFar_def Let_def)

lemma indexOf_le: "i < length xs \<Longrightarrow> xs ! i = x \<Longrightarrow> indexOf xs x \<le> i"
proof (rule ccontr)
  assume i: "i < length xs" "xs ! i = x" and "\<not> indexOf xs x \<le> i"
  then have l: "i < length (takeWhile (\<lambda>y. y \<noteq> x) xs)" by (simp add: indexOf_def)
  then have "takeWhile (\<lambda>y. y \<noteq> x) xs ! i \<in> set (takeWhile (\<lambda>y. y \<noteq> x) xs)" by simp
  then have "takeWhile (\<lambda>y. y \<noteq> x) xs ! i \<noteq> x" by (auto dest: set_takeWhileD)
  then show False using i l by (simp add: takeWhile_nth)
qed

lemma indexOf_take: "x \<in> set (take i xs) \<Longrightarrow> indexOf xs x < i"
proof -
  assume "x \<in> set (take i xs)"
  then obtain j where "j < length (take i xs)" "take i xs ! j = x" by (auto simp: in_set_conv_nth)
  then have "j < i" "j < length xs" "xs ! j = x" by auto
  then show ?thesis using indexOf_le[of j xs x] by simp
qed

lemma indexOf_nth: "x \<in> set xs \<Longrightarrow> indexOf xs x < length xs \<and> xs ! indexOf xs x = x"
proof -
  assume "x \<in> set xs"
  then have "takeWhile (\<lambda>y. y \<noteq> x) xs \<noteq> xs"
    by auto
  then have "length (takeWhile (\<lambda>y. y \<noteq> x) xs) \<noteq> length xs"
    by (metis takeWhile_eq_take take_all order_refl)
  then have l: "indexOf xs x < length xs"
    unfolding indexOf_def using length_takeWhile_le[of "\<lambda>y. y \<noteq> x" xs] by simp
  then have "\<not> (xs ! indexOf xs x \<noteq> x)"
    unfolding indexOf_def by (rule nth_length_takeWhile)
  then show ?thesis using l by simp
qed

lemma kahn_initial:
  assumes "consistent g d" "rangeOrder ks d"
  shows "kahnInv g (fmdom' d) d (filter (\<lambda>table. fmlookup d table = Some 0) ks) []"
proof -
  let ?q = "filter (\<lambda>table. fmlookup d table = Some 0) ks"
  have "distinct ([] @ ?q)" using assms(2) by (simp add: rangeOrder_def)
  moreover have "set ([] @ ?q) \<subseteq> fmdom' d" using assms(2) by (auto simp: rangeOrder_def)
  moreover have "\<forall>t. degree d t = int (remaining g [] t)"
    using assms(1) by (simp add: consistent_def inEdges_def)
  moreover have "\<forall>t \<in> fmdom' d. t \<in> set ([] @ ?q) \<longleftrightarrow> degree d t = 0"
    using assms(2) by (auto simp: rangeOrder_def degree_def fmlookup_dom'_iff)
  ultimately show ?thesis unfolding kahnInv_def by simp
qed

lemma kahn_final:
  assumes "consistent g d" "rangeOrder ks d"
  shows "\<exists>dF. kahnInv g (fmdom' d) dF [] (sortedSoFar ks g d)"
  unfolding sortedSoFar_def
  by (rule kahnLoop_inv[OF assms(1) kahn_initial[OF assms]])

lemma sorted_distinct:
  assumes "consistent g d" "rangeOrder ks d"
  shows "distinct (sortedSoFar ks g d)" and "set (sortedSoFar ks g d) \<subseteq> fmdom' d"
  using kahn_final[OF assms] unfolding kahnInv_def by auto

lemma sorted_order:
  assumes "consistent g d" "rangeOrder ks d"
    and "c \<in> set (sortedSoFar ks g d)" "c \<in> set (children g p)"
  shows "p \<in> set (sortedSoFar ks g d) \<and> indexOf (sortedSoFar ks g d) p < indexOf (sortedSoFar ks g d) c"
proof -
  let ?S = "sortedSoFar ks g d"
  from kahn_final[OF assms(1,2)] have
    ord: "\<And>i p. i < length ?S \<Longrightarrow> ?S ! i \<in> set (children g p) \<Longrightarrow> p \<in> set (take i ?S)"
    unfolding kahnInv_def by blast
  from indexOf_nth[OF assms(3)] have i: "indexOf ?S c < length ?S" "?S ! indexOf ?S c = c" by auto
  then have m: "p \<in> set (take (indexOf ?S c) ?S)" using ord[of "indexOf ?S c" p] assms(4) by simp
  then have "p \<in> set ?S" by (rule in_set_takeD)
  then show ?thesis using indexOf_take[OF m] by simp
qed

lemma sorted_unsorted_parent:
  assumes "consistent g d" "rangeOrder ks d"
    and "t \<in> fmdom' d" "t \<notin> set (sortedSoFar ks g d)"
  shows "\<exists>p \<in> fmdom' g - set (sortedSoFar ks g d). t \<in> set (children g p)"
proof -
  let ?S = "sortedSoFar ks g d"
  from kahn_final[OF assms(1,2)] obtain dF where inv: "kahnInv g (fmdom' d) dF [] ?S"
    by blast
  have deg: "\<And>t. degree dF t = int (remaining g ?S t)" and
    zero: "\<And>t. t \<in> fmdom' d \<Longrightarrow> t \<in> set ?S \<longleftrightarrow> degree dF t = 0"
    using inv unfolding kahnInv_def by auto
  have "remaining g ?S t \<noteq> 0" using zero[OF assms(3)] assms(4) deg by simp
  then obtain p where "p \<in> fmdom' g - set ?S" "count_list (children g p) t \<noteq> 0"
    unfolding remaining_def by auto
  then show ?thesis by (auto simp: count_list_0_iff)
qed

lemma success_iff_all:
  assumes "consistent g d" "rangeOrder ks d"
  shows "length (sortedSoFar ks g d) = card (fmdom' g) \<longleftrightarrow> set (sortedSoFar ks g d) = fmdom' g"
proof -
  let ?S = "sortedSoFar ks g d"
  have dist: "distinct ?S" and sub: "set ?S \<subseteq> fmdom' g"
    using sorted_distinct[OF assms] assms(1) by (auto simp: consistent_def)
  have l: "length ?S = card (set ?S)" using dist by (simp add: distinct_card)
  show ?thesis
  proof
    assume "length ?S = card (fmdom' g)"
    then have "card (set ?S) = card (fmdom' g)" using l by simp
    then show "set ?S = fmdom' g" using sub by (simp add: card_subset_eq)
  next
    assume "set ?S = fmdom' g" then show "length ?S = card (fmdom' g)" using l by simp
  qed
qed

lemma success_acyclic:
  assumes "consistent g d" "rangeOrder ks d" "set (sortedSoFar ks g d) = fmdom' g"
  shows "acyclic (edges g)" and "fmdom' d = fmdom' g"
proof -
  let ?S = "sortedSoFar ks g d"
  show D: "fmdom' d = fmdom' g"
    using sorted_distinct(2)[OF assms(1,2)] assms(1,3) by (auto simp: consistent_def)
  have "edges g \<subseteq> inv_image less_than (indexOf ?S)"
  proof
    fix e assume "e \<in> edges g"
    then obtain p c where e: "e = (p, c)" and pc: "c \<in> set (children g p)" by (auto simp: edges_def)
    have "c \<in> fmdom' d" using assms(1) pc by (auto simp: consistent_def)
    then have "c \<in> set ?S" using D assms(3) by simp
    from sorted_order[OF assms(1,2) this pc] show "e \<in> inv_image less_than (indexOf ?S)"
      by (simp add: e)
  qed
  then have "wf (edges g)" by (rule wf_subset[rotated]) simp
  then show "acyclic (edges g)" by (rule wf_acyclic)
qed

lemma acyclic_success:
  assumes "consistent g d" "rangeOrder ks d" "acyclic (edges g)" "fmdom' d = fmdom' g"
  shows "set (sortedSoFar ks g d) = fmdom' g"
proof (rule ccontr)
  let ?S = "sortedSoFar ks g d"
  let ?U = "fmdom' g - set ?S"
  let ?r = "edges g \<inter> (?U \<times> ?U)"
  assume "set ?S \<noteq> fmdom' g"
  moreover have "set ?S \<subseteq> fmdom' g" using sorted_distinct(2)[OF assms(1,2)] assms(4) by simp
  ultimately obtain z where z: "z \<in> ?U" by auto
  have "finite ?r" by (rule finite_subset[of _ "?U \<times> ?U"]) auto
  moreover have "acyclic ?r" using assms(3) by (rule acyclic_subset) simp
  ultimately have "wf ?r" by (rule finite_acyclic_wf)
  from wfE_min[OF this z] obtain m where m: "m \<in> ?U" and mn: "\<And>y. (y, m) \<in> ?r \<Longrightarrow> y \<notin> ?U"
    by blast
  have "m \<in> fmdom' d" "m \<notin> set ?S" using m assms(4) by auto
  from sorted_unsorted_parent[OF assms(1,2) this] obtain p where
    "p \<in> ?U" "m \<in> set (children g p)" by auto
  then have "(p, m) \<in> ?r" using m by (auto simp: edges_def)
  then show False using mn \<open>p \<in> ?U\<close> by blast
qed

lemma fails_iff:
  assumes "consistent g d" "rangeOrder ks d"
  shows "topologicalSort ks g d = Inl CyclicDependency \<longleftrightarrow>
         \<not> acyclic (edges g) \<or> fmdom' d \<noteq> fmdom' g"
  using success_iff_all[OF assms] success_acyclic[OF assms] acyclic_success[OF assms]
  by (auto simp: topologicalSort_eq)

section \<open>Trimming a line does not change its table name\<close>

lemmas char_eval =
  toLowerByte_def toUpperByte_def isLower_def isUpper_def isWord_def inRange_def
  char_of_def bit_iff_odd

lemmas string_eval =
  char_eval TrimSpace_def spaceRunes_def foldAlts_def submatchAt_def TABLE_PATTERN_def
  REFERENCES_PATTERN_def Contains_def sublist_code(3) kelvinSign_def longS_def dottedI_def Let_def

lemma spaceRunes_inert: "w \<in> set spaceRunes \<Longrightarrow> b \<in> set w \<Longrightarrow> inert b"
  by (auto simp: spaceRunes_def inert_def char_eval)

lemma spaceRunes_nonempty: "[] \<notin> set spaceRunes"
  by (simp add: spaceRunes_def)

lemma trimFront_split:
  "[] \<notin> set ws \<Longrightarrow> \<exists>pre. s = pre @ trimFront ws s \<and> set pre \<subseteq> \<Union> (set ` set ws)"
proof (induction ws s rule: trimFront.induct)
  case (1 ws)
  then show ?case by simp
next
  case (2 ws c s)
  show ?case
  proof (cases "find (\<lambda>w. prefix w (c # s)) ws")
    case None
    then show ?thesis by simp
  next
    case (Some w)
    then have w: "w \<in> set ws" "prefix w (c # s)"
      by (auto simp: find_Some_iff)
    then have "w \<noteq> []" using "2.prems" by auto
    then obtain w' where w': "w = c # w'" "prefix w' s"
      using w(2) by (cases w) auto
    then have s: "s = w' @ drop (length w - 1) s"
      by (auto simp: prefix_def)
    from "2.IH"[OF Some "2.prems"] obtain pre where
      pre: "drop (length w - 1) s = pre @ trimFront ws (drop (length w - 1) s)"
      "set pre \<subseteq> \<Union> (set ` set ws)" by blast
    have "c # s = (w @ pre) @ trimFront ws (c # s)"
      using s pre(1) w'(1) by (simp add: Some)
    moreover have "set (w @ pre) \<subseteq> \<Union> (set ` set ws)"
      using pre(2) w(1) by auto
    ultimately show ?thesis by blast
  qed
qed

lemma TrimSpace_split:
  "\<exists>pre suf. s = pre @ TrimSpace s @ suf \<and> (\<forall>b \<in> set pre. inert b) \<and> (\<forall>b \<in> set suf. inert b)"
proof -
  let ?t = "trimFront spaceRunes s"
  from trimFront_split[OF spaceRunes_nonempty, of s] obtain pre where
    pre: "s = pre @ ?t" "set pre \<subseteq> \<Union> (set ` set spaceRunes)" by blast
  have "[] \<notin> set (map rev spaceRunes)" using spaceRunes_nonempty by auto
  from trimFront_split[OF this, of "rev ?t"] obtain fus where
    fus: "rev ?t = fus @ trimFront (map rev spaceRunes) (rev ?t)"
    "set fus \<subseteq> \<Union> (set ` set (map rev spaceRunes))" by blast
  have "rev (rev ?t) = rev (fus @ trimFront (map rev spaceRunes) (rev ?t))"
    using fus(1) by simp
  then have t: "?t = TrimSpace s @ rev fus"
    by (simp add: TrimSpace_def)
  have "s = pre @ TrimSpace s @ rev fus" using pre(1) t by simp
  moreover have "\<forall>b \<in> set pre. inert b" using pre(2) spaceRunes_inert by auto
  moreover have "\<forall>b \<in> set (rev fus). inert b" using fus(2) spaceRunes_inert by auto
  ultimately show ?thesis by blast
qed

lemma find_single:
  assumes "\<forall>a \<in> set alts. length a = 1" "s \<noteq> []"
  shows "find (\<lambda>a. prefix a (s @ t)) alts = find (\<lambda>a. prefix a s) alts"
proof (rule find_cong[OF refl])
  fix a assume "a \<in> set alts"
  then have "length a = 1" using assms(1) by simp
  then obtain x where "a = [x]" by (cases a) auto
  then show "prefix a (s @ t) = prefix a s" using assms(2) by (cases s) auto
qed

lemma find_single_Nil:
  assumes "\<forall>a \<in> set alts. length a = 1"
  shows "find (\<lambda>a. prefix a []) alts = None"
  using assms by (induction alts) auto

lemma find_single_length:
  assumes "\<forall>a \<in> set alts. length a = 1" "find P alts = Some a"
  shows "length a = 1"
  using assms by (auto simp: find_Some_iff)

lemma matchFold_snoc:
  "singleByte lit \<Longrightarrow>
   (case matchFold lit s of
      Some r \<Rightarrow> matchFold lit (s @ [b]) = Some (r @ [b])
    | None \<Rightarrow> matchFold lit (s @ [b]) = None \<or> matchFold lit (s @ [b]) = Some [])"
proof (induction lit s rule: matchFold.induct)
  case (1 s)
  then show ?case by simp
next
  case (2 p ps s)
  have single: "\<forall>a \<in> set (foldAlts p). length a = 1" and ps: "singleByte ps"
    using "2.prems" by (auto simp: singleByte_def)
  show ?case
  proof (cases s)
    case Nil
    have n: "find (\<lambda>a. prefix a []) (foldAlts p) = None"
      by (rule find_single_Nil[OF single])
    show ?thesis
    proof (cases "find (\<lambda>a. prefix a [b]) (foldAlts p)")
      case None
      then show ?thesis using n Nil by simp
    next
      case (Some a)
      then have "length a = 1" using single by (rule find_single_length[rotated])
      then have d: "drop (length a) [b] = []" by simp
      have "matchFold ps [] = None \<or> matchFold ps [] = Some []"
      proof (cases ps)
        case Nil then show ?thesis by simp
      next
        case (Cons p' ps')
        then have "\<forall>a \<in> set (foldAlts p'). length a = 1" using ps by (simp add: singleByte_def)
        then have "find (\<lambda>a. prefix a []) (foldAlts p') = None" by (rule find_single_Nil)
        then show ?thesis using Cons by (simp del: prefix_Nil)
      qed
      then show ?thesis using n Nil Some d by simp
    qed
  next
    case (Cons c s')
    then have e: "find (\<lambda>a. prefix a (s @ [b])) (foldAlts p) = find (\<lambda>a. prefix a s) (foldAlts p)"
      using find_single[OF single, of s "[b]"] by simp
    show ?thesis
    proof (cases "find (\<lambda>a. prefix a s) (foldAlts p)")
      case None
      then show ?thesis using e by simp
    next
      case (Some a)
      then have la: "length a = 1" using single by (rule find_single_length[rotated])
      then have d: "drop (length a) (s @ [b]) = drop (length a) s @ [b]"
        using Cons by simp
      have 1: "matchFold (p # ps) s = matchFold ps (drop (length a) s)"
        by (simp only: matchFold.simps Some option.case)
      have 2: "matchFold (p # ps) (s @ [b]) = matchFold ps (drop (length a) s @ [b])"
        by (simp only: matchFold.simps e Some option.case d)
      from "2.IH"[OF Some ps] show ?thesis unfolding 1 2 .
    qed
  qed
qed

lemma prefix2_snoc: "b \<noteq> y \<Longrightarrow> prefix [x, y] (c # s @ [b]) = prefix [x, y] (c # s)"
  by (cases s) auto

lemma prefix3_snoc: "b \<noteq> z \<Longrightarrow> prefix [x, y, z] (c # s @ [b]) = prefix [x, y, z] (c # s)"
proof (cases s)
  case Nil
  then show ?thesis by simp
next
  case (Cons d t)
  assume "b \<noteq> z"
  then show ?thesis using Cons by (cases t) auto
qed

lemma wordRun_Cons_word: "isWord c \<Longrightarrow> wordRun (c # s) = c # wordRun s"
  by simp

lemma wordRun_Cons_longS:
  "\<not> isWord c \<Longrightarrow> prefix longS (c # s) \<Longrightarrow> wordRun (c # s) = longS @ wordRun (drop 1 s)"
  by simp

lemma wordRun_Cons_kelvin:
  "\<not> isWord c \<Longrightarrow> \<not> prefix longS (c # s) \<Longrightarrow> prefix kelvinSign (c # s) \<Longrightarrow>
   wordRun (c # s) = kelvinSign @ wordRun (drop 2 s)"
  by simp

lemma wordRun_Cons_none:
  "\<not> isWord c \<Longrightarrow> \<not> prefix longS (c # s) \<Longrightarrow> \<not> prefix kelvinSign (c # s) \<Longrightarrow>
   wordRun (c # s) = []"
  by simp

lemma wordRun_snoc_inert: "inert b \<Longrightarrow> wordRun (r @ [b]) = wordRun r"
proof (induction r rule: wordRun.induct)
  case 1
  have "\<not> isWord b" "\<not> prefix longS [b]" "\<not> prefix kelvinSign [b]"
    using 1 by (simp_all add: inert_def longS_def kelvinSign_def)
  then show ?case by (simp del: wordRun.simps add: wordRun_Cons_none wordRun.simps(1))
next
  case (2 c s)
  have nb: "b \<noteq> CHR 0xBF" "b \<noteq> CHR 0xAA" using "2.prems" by (simp_all add: inert_def)
  have l: "prefix longS (c # s @ [b]) = prefix longS (c # s)"
    unfolding longS_def using nb(1) by (rule prefix2_snoc)
  have k: "prefix kelvinSign (c # s @ [b]) = prefix kelvinSign (c # s)"
    unfolding kelvinSign_def using nb(2) by (rule prefix3_snoc)
  have app: "(c # s) @ [b] = c # s @ [b]" by simp
  show ?case
  proof (cases "isWord c")
    case True
    have "wordRun (s @ [b]) = wordRun s" using "2.IH"(1)[OF True "2.prems"] .
    then show ?thesis unfolding app by (simp only: wordRun_Cons_word[OF True])
  next
    case w: False
    show ?thesis
    proof (cases "prefix longS (c # s)")
      case True
      then have "s \<noteq> []" by (auto simp: longS_def)
      then have d: "drop 1 (s @ [b]) = drop 1 s @ [b]" by (cases s) auto
      have t': "prefix longS (c # s @ [b])" using True l by simp
      have "wordRun (drop 1 s @ [b]) = wordRun (drop 1 s)" using "2.IH"(2)[OF w True "2.prems"] .
      then show ?thesis unfolding app
        by (simp only: wordRun_Cons_longS[OF w True] wordRun_Cons_longS[OF w t'] d)
    next
      case nl: False
      have nl': "\<not> prefix longS (c # s @ [b])" using nl l by simp
      show ?thesis
      proof (cases "prefix kelvinSign (c # s)")
        case True
        then have "2 \<le> length s" by (auto simp: kelvinSign_def prefix_def)
        then have d: "drop 2 (s @ [b]) = drop 2 s @ [b]" by simp
        have t': "prefix kelvinSign (c # s @ [b])" using True k by simp
        have "wordRun (drop 2 s @ [b]) = wordRun (drop 2 s)"
          using "2.IH"(3)[OF w nl True "2.prems"] .
        then show ?thesis unfolding app
          by (simp only: wordRun_Cons_kelvin[OF w nl True] wordRun_Cons_kelvin[OF w nl' t'] d)
      next
        case False
        then have f': "\<not> prefix kelvinSign (c # s @ [b])" using k by simp
        show ?thesis unfolding app
          by (simp only: wordRun_Cons_none[OF w nl False] wordRun_Cons_none[OF w nl' f'])
      qed
    qed
  qed
qed

lemma submatchAt_snoc:
  assumes "singleByte lit" "inert b"
  shows "submatchAt lit (s @ [b]) = submatchAt lit s"
proof (cases "matchFold lit s")
  case None
  then have "matchFold lit (s @ [b]) = None \<or> matchFold lit (s @ [b]) = Some []"
    using matchFold_snoc[OF assms(1), of s b] by simp
  then show ?thesis using None by (auto simp: submatchAt_def)
next
  case (Some r)
  then have m: "matchFold lit (s @ [b]) = Some (r @ [b])"
    using matchFold_snoc[OF assms(1), of s b] by simp
  have nb: "b \<noteq> CHR 0x60" using assms(2) by (auto simp: inert_def)
  have e: "wordRun [b] = []" using wordRun_snoc_inert[OF assms(2), of "[]"] by simp
  show ?thesis
  proof (cases r)
    case Nil
    then show ?thesis using Some m nb e by (simp add: submatchAt_def del: wordRun.simps(2))
  next
    case (Cons c t)
    have "wordRun (t @ [b]) = wordRun t" "wordRun (c # t @ [b]) = wordRun (c # t)"
      using wordRun_snoc_inert[OF assms(2), of t] wordRun_snoc_inert[OF assms(2), of "c # t"]
      by simp_all
    then show ?thesis using Some m Cons
      by (simp add: submatchAt_def del: wordRun.simps(2))
  qed
qed

lemma FindStringSubmatch_snoc:
  assumes "singleByte lit" "inert b"
  shows "FindStringSubmatch lit (s @ [b]) = FindStringSubmatch lit s"
proof (induction s)
  case Nil
  have "submatchAt lit [b] = submatchAt lit []"
    using submatchAt_snoc[OF assms, of "[]"] by simp
  then show ?case by (simp split: option.splits)
next
  case (Cons c s)
  have "submatchAt lit (c # s @ [b]) = submatchAt lit (c # s)"
    using submatchAt_snoc[OF assms, of "c # s"] by simp
  then show ?case using Cons by (simp split: option.splits)
qed

lemma FindStringSubmatch_append_inert:
  assumes "singleByte lit" "\<forall>b \<in> set suf. inert b"
  shows "FindStringSubmatch lit (s @ suf) = FindStringSubmatch lit s"
  using assms(2)
proof (induction suf rule: rev_induct)
  case Nil
  then show ?case by simp
next
  case (snoc b suf)
  have "FindStringSubmatch lit ((s @ suf) @ [b]) = FindStringSubmatch lit (s @ suf)"
    using snoc.prems by (intro FindStringSubmatch_snoc[OF assms(1)]) simp
  then show ?case using snoc by simp
qed

lemma TABLE_PATTERN_single: "singleByte TABLE_PATTERN"
  by (simp add: singleByte_def TABLE_PATTERN_def foldAlts_def char_eval)

lemma TABLE_PATTERN_first:
  assumes "inert b"
  shows "submatchAt TABLE_PATTERN (b # s) = None"
proof -
  have "isWord CHR ''c''" "isWord CHR ''C''"
    by (simp_all add: char_eval)
  moreover have "\<not> isWord b"
    using assms by (simp add: inert_def)
  ultimately have "b \<noteq> CHR ''c''" "b \<noteq> CHR ''C''"
    by blast+
  moreover have "foldAlts CHR ''C'' = [''c'', ''C'']"
    by (simp add: foldAlts_def char_eval)
  ultimately have "matchFold TABLE_PATTERN (b # s) = None"
    by (simp add: TABLE_PATTERN_def)
  then show ?thesis
    by (simp add: submatchAt_def)
qed

lemma FindStringSubmatch_prepend_inert:
  assumes "\<forall>b \<in> set pre. inert b"
  shows "FindStringSubmatch TABLE_PATTERN (pre @ s) = FindStringSubmatch TABLE_PATTERN s"
  using assms by (induction pre) (simp_all add: TABLE_PATTERN_first)

lemma findTable_TrimSpace:
  "FindStringSubmatch TABLE_PATTERN (TrimSpace s) = FindStringSubmatch TABLE_PATTERN s"
proof -
  from TrimSpace_split[of s] obtain pre suf where
    s: "s = pre @ TrimSpace s @ suf" and p: "\<forall>b \<in> set pre. inert b" and q: "\<forall>b \<in> set suf. inert b"
    by blast
  have "FindStringSubmatch TABLE_PATTERN (pre @ TrimSpace s @ suf) =
        FindStringSubmatch TABLE_PATTERN (TrimSpace s @ suf)"
    using p by (rule FindStringSubmatch_prepend_inert)
  also have "\<dots> = FindStringSubmatch TABLE_PATTERN (TrimSpace s)"
    using TABLE_PATTERN_single q by (rule FindStringSubmatch_append_inert)
  finally show ?thesis using s by simp
qed

section \<open>The lines of the input and the state of parseDDL\<close>







lemma onForeignKey_fields [simp]:
  "currentTable (onForeignKey line st) = currentTable st"
  "tableOrder (onForeignKey line st) = tableOrder st"
  by (simp_all add: onForeignKey_def split: option.splits)


lemma parseLine_ignored:
  assumes "currentTable st = []" "FindStringSubmatch TABLE_PATTERN l = None"
  shows "parseLine st l = st"
  using assms
  by (simp add: parseLine_def Let_def onCreateTable_def onForeignKey_def findTable_TrimSpace
      split: option.splits)

lemma foldl_parseLine_ignored:
  assumes "currentTable st = []" "\<forall>l \<in> set pre. FindStringSubmatch TABLE_PATTERN l = None"
  shows "foldl parseLine st pre = st"
  using assms by (induction pre) (simp_all add: parseLine_ignored)





lemma scanDDL_append: "scanDDL (xs @ ys) = foldl parseLine (scanDDL xs) ys"
  by (simp add: scanDDL_def)




section \<open>The blocks of reorderDDL\<close>

lemma splitDDL_sealed: "splitDDL ls = sealed (foldl splitLine split_init ls)"
  by (simp add: splitDDL_def sealed_def Let_def)


lemma linesText_Cons: "linesText (l # ls) = l @ newline @ linesText ls"
  by (simp add: linesText_def)

lemma splitLine_plain:
  assumes "FindStringSubmatch TABLE_PATTERN l = None"
  shows "splitLine st l =
           (if blockTable st = [] then st else st\<lparr>currentDDL := currentDDL st @ l @ newline\<rparr>)"
  using assms by (simp add: splitLine_def)


lemma foldl_splitLine_plain:
  assumes "\<forall>l \<in> set body. FindStringSubmatch TABLE_PATTERN l = None"
  shows "foldl splitLine st body =
           (if blockTable st = [] then st else st\<lparr>currentDDL := currentDDL st @ linesText body\<rparr>)"
  using assms
proof (induction body arbitrary: st)
  case Nil
  then show ?case by (simp add: linesText_def)
next
  case (Cons l body)
  then show ?case by (simp add: splitLine_plain linesText_Cons)
qed

lemma foldl_splitLine_preamble:
  assumes "\<forall>l \<in> set pre. FindStringSubmatch TABLE_PATTERN l = None"
  shows "foldl splitLine split_init (pre @ rest) = foldl splitLine split_init rest"
  using foldl_splitLine_plain[OF assms, of split_init] by (simp add: split_init_def)

lemma splitDDL_preamble:
  assumes "\<forall>l \<in> set pre. FindStringSubmatch TABLE_PATTERN l = None"
  shows "splitDDL (pre @ rest) = splitDDL rest"
  by (simp only: splitDDL_sealed foldl_splitLine_preamble[OF assms])












section \<open>Evaluation on concrete inputs\<close>

lemmas parse_eval =
  scanDDL_def parseDDL_def parseLine_def onCreateTable_def onForeignKey_def parse_init_def
  children_def degree_def Let_def

lemmas sort_eval =
  topologicalSort_def sortedSoFar_def relax_def children_def degree_def Let_def card_insert_if
  rangeOrder_def indexOf_def

lemma line_create_a:
  "TrimSpace ''CREATE TABLE a'' = ''CREATE TABLE a''"
  "FindStringSubmatch TABLE_PATTERN ''CREATE TABLE a'' = Some ''a''"
  "Contains (ToLower ''CREATE TABLE a'') ''foreign key'' = False"
  by (simp_all add: string_eval)

lemma line_create_b:
  "TrimSpace ''create table `b` ('' = ''create table `b` (''"
  "FindStringSubmatch TABLE_PATTERN ''create table `b` ('' = Some ''b''"
  "Contains (ToLower ''create table `b` ('') ''foreign key'' = False"
  by (simp_all add: string_eval)

lemma line_create_c:
  "TrimSpace ''CREATE TABLE c'' = ''CREATE TABLE c''"
  "FindStringSubmatch TABLE_PATTERN ''CREATE TABLE c'' = Some ''c''"
  "Contains (ToLower ''CREATE TABLE c'') ''foreign key'' = False"
  by (simp_all add: string_eval)

lemma line_references_a:
  "TrimSpace ''  FOREIGN KEY (x) REFERENCES a (id)'' = ''FOREIGN KEY (x) REFERENCES a (id)''"
  "FindStringSubmatch TABLE_PATTERN ''  FOREIGN KEY (x) REFERENCES a (id)'' = None"
  "FindStringSubmatch TABLE_PATTERN ''FOREIGN KEY (x) REFERENCES a (id)'' = None"
  "Contains (ToLower ''FOREIGN KEY (x) REFERENCES a (id)'') ''foreign key'' = True"
  "FindStringSubmatch REFERENCES_PATTERN ''FOREIGN KEY (x) REFERENCES a (id)'' = Some ''a''"
  by (simp_all add: string_eval)

lemma line_references_b:
  "TrimSpace ''foreign key (y) references `b`(id)'' = ''foreign key (y) references `b`(id)''"
  "FindStringSubmatch TABLE_PATTERN ''foreign key (y) references `b`(id)'' = None"
  "Contains (ToLower ''foreign key (y) references `b`(id)'') ''foreign key'' = True"
  "FindStringSubmatch REFERENCES_PATTERN ''foreign key (y) references `b`(id)'' = Some ''b''"
  by (simp_all add: string_eval)

lemmas line_eval = line_create_a line_create_b line_create_c line_references_a line_references_b

lemma parse_b_a:
  "parseDDL [''create table `b` ('', ''  FOREIGN KEY (x) REFERENCES a (id)'', ''CREATE TABLE a''] =
     (fmupd ''a'' [''b''] (fmupd ''b'' [] fmempty), fmupd ''a'' 0 (fmupd ''b'' 1 fmempty), [''b'', ''a''])"
  by (simp add: parse_eval line_eval del: ToLower.simps FindStringSubmatch.simps)

lemma sort_b_a:
  "topologicalSort [''b'', ''a''] (fmupd ''a'' [''b''] (fmupd ''b'' [] fmempty))
     (fmupd ''a'' 0 (fmupd ''b'' 1 fmempty)) = Inr [''a'', ''b'']"
  by (simp add: sort_eval)

text \<open>
  C1. Whenever \<open>topologicalSort\<close> returns a sequence for the graph and the in-degrees that
  \<open>parseDDL\<close> extracted, every edge parent \<rightarrow> child of the graph has both ends in the
  sequence, the parent at a strictly smaller index than the child. This holds for every
  order in which Go may visit the keys of the in-degree map, and in particular for every
  acyclic graph (a graph for which a sequence is returned is acyclic).
\<close>

theorem topologicalSort_order:
  assumes "parseDDL lines = (g, d, order)" and "rangeOrder ks d"
    and "topologicalSort ks g d = Inr sortedTables"
    and "child \<in> set (children g parent)"
  shows "parent \<in> set sortedTables \<and> child \<in> set sortedTables \<and>
         indexOf sortedTables parent < indexOf sortedTables child"
proof -
  have con: "consistent g d" using assms(1) by (rule parseDDL_consistent)
  have s: "sortedTables = sortedSoFar ks g d" and l: "length (sortedSoFar ks g d) = card (fmdom' g)"
    using assms(3) by (auto simp: topologicalSort_eq split: if_splits)
  have all: "set (sortedSoFar ks g d) = fmdom' g"
    using success_iff_all[OF con assms(2)] l by simp
  have "child \<in> fmdom' d" using con assms(4) by (auto simp: consistent_def)
  then have "child \<in> set (sortedSoFar ks g d)"
    using all success_acyclic(2)[OF con assms(2) all] by simp
  from sorted_order[OF con assms(2) this assms(4)] this show ?thesis
    by (simp add: s)
qed

theorem topologicalSort_order_witness:
  "parseDDL [''create table `b` ('', ''  FOREIGN KEY (x) REFERENCES a (id)'', ''CREATE TABLE a''] =
     (fmupd ''a'' [''b''] (fmupd ''b'' [] fmempty), fmupd ''a'' 0 (fmupd ''b'' 1 fmempty), [''b'', ''a'']) \<and>
   rangeOrder [''b'', ''a''] (fmupd ''a'' 0 (fmupd ''b'' 1 fmempty)) \<and>
   topologicalSort [''b'', ''a''] (fmupd ''a'' [''b''] (fmupd ''b'' [] fmempty))
     (fmupd ''a'' 0 (fmupd ''b'' 1 fmempty)) = Inr [''a'', ''b''] \<and>
   ''b'' \<in> set (children (fmupd ''a'' [''b''] (fmupd ''b'' [] fmempty)) ''a'') \<and>
   ''a'' \<in> set [''a'', ''b''] \<and> ''b'' \<in> set [''a'', ''b''] \<and>
   indexOf [''a'', ''b''] ''a'' < indexOf [''a'', ''b''] ''b''"
proof -
  have r: "rangeOrder [''b'', ''a''] (fmupd ''a'' 0 (fmupd ''b'' 1 fmempty))"
    by (auto simp: rangeOrder_def)
  have c: "''b'' \<in> set (children (fmupd ''a'' [''b''] (fmupd ''b'' [] fmempty)) ''a'')"
    by (simp add: children_def)
  from topologicalSort_order[OF parse_b_a r sort_b_a c] parse_b_a r sort_b_a c
  show ?thesis by blast
qed

lemma parse_cycle:
  "parseDDL [''CREATE TABLE a'', ''foreign key (y) references `b`(id)'', ''create table `b` ('',
             ''  FOREIGN KEY (x) REFERENCES a (id)''] =
     (fmupd ''a'' [''b''] (fmupd ''b'' [''a''] (fmupd ''a'' [] fmempty)),
      fmupd ''b'' 1 (fmupd ''a'' 1 fmempty), [''a'', ''b''])"
  by (simp add: parse_eval line_eval del: ToLower.simps FindStringSubmatch.simps)

lemma sort_cycle:
  "topologicalSort [''a'', ''b''] (fmupd ''a'' [''b''] (fmupd ''b'' [''a''] (fmupd ''a'' [] fmempty)))
     (fmupd ''b'' 1 (fmupd ''a'' 1 fmempty)) = Inl CyclicDependency"
  by (simp add: sort_eval)

lemma parse_missing_parent:
  "parseDDL [''CREATE TABLE a'', ''foreign key (y) references `b`(id)''] =
     (fmupd ''b'' [''a''] (fmupd ''a'' [] fmempty), fmupd ''a'' 1 fmempty, [''a''])"
  by (simp add: parse_eval line_eval del: ToLower.simps FindStringSubmatch.simps)

lemma sort_missing_parent:
  "topologicalSort [''a''] (fmupd ''b'' [''a''] (fmupd ''a'' [] fmempty)) (fmupd ''a'' 1 fmempty) =
     Inl CyclicDependency"
  by (simp add: sort_eval)

lemma edges_missing_parent:
  "edges (fmupd ''b'' [''a''] (fmupd ''a'' [] fmempty)) = {(''b'', ''a'')}"
  by (auto simp: edges_def children_def split: if_splits)


text \<open>
  C2. The claim is that \<open>topologicalSort\<close> fails if and only if the graph has a directed
  cycle, which is what the comment on the length check (line 105: cycle check, for a
  graph that is no DAG) and the message it prints say. The code fails without a cycle:
  the input \<^verbatim>\<open>CREATE TABLE a\<close>, \<^verbatim>\<open>foreign key (y) references `b`(id)\<close> gives the graph with
  the single edge b \<rightarrow> a, and \<open>topologicalSort\<close> fails on it, since b has an entry in the
  graph and none in the in-degree map.
\<close>

theorem topologicalSort_fails_without_cycle:
  "parseDDL [''CREATE TABLE a'', ''foreign key (y) references `b`(id)''] =
     (fmupd ''b'' [''a''] (fmupd ''a'' [] fmempty), fmupd ''a'' 1 fmempty, [''a'']) \<and>
   rangeOrder [''a''] (fmupd ''a'' 1 fmempty) \<and>
   topologicalSort [''a''] (fmupd ''b'' [''a''] (fmupd ''a'' [] fmempty)) (fmupd ''a'' 1 fmempty) =
     Inl CyclicDependency \<and>
   acyclic (edges (fmupd ''b'' [''a''] (fmupd ''a'' [] fmempty)))"
proof -
  have "rangeOrder [''a''] (fmupd ''a'' 1 fmempty)"
    by (simp add: rangeOrder_def)
  moreover have "acyclic (edges (fmupd ''b'' [''a''] (fmupd ''a'' [] fmempty)))"
    unfolding edges_missing_parent by (rule wf_acyclic) simp
  ultimately show ?thesis
    using parse_missing_parent sort_missing_parent by simp
qed

text \<open>
  The inputs on which the code fails (for C2 and C9). For the graph and the in-degrees
  that \<open>parseDDL\<close> extracted and every order in which the keys of the in-degree map are
  visited: \<open>topologicalSort\<close> fails exactly when
  the length of the sorted result differs from the number of entries of the graph, and
  that happens exactly when the graph has a directed cycle or has an entry for a table
  without an in-degree entry (a table that a foreign key references and no
  \<^verbatim>\<open>CREATE TABLE\<close> line creates).
\<close>

theorem topologicalSort_fails_iff:
  assumes "parseDDL lines = (g, d, order)" and "rangeOrder ks d"
  shows "(topologicalSort ks g d = Inl CyclicDependency \<longleftrightarrow>
            length (sortedSoFar ks g d) \<noteq> card (fmdom' g)) \<and>
         (length (sortedSoFar ks g d) \<noteq> card (fmdom' g) \<longleftrightarrow>
            \<not> acyclic (edges g) \<or> fmdom' d \<noteq> fmdom' g)"
proof -
  have con: "consistent g d" using assms(1) by (rule parseDDL_consistent)
  have "topologicalSort ks g d = Inl CyclicDependency \<longleftrightarrow>
        length (sortedSoFar ks g d) \<noteq> card (fmdom' g)"
    by (simp add: topologicalSort_eq)
  then show ?thesis using fails_iff[OF con assms(2)] by simp
qed

theorem topologicalSort_fails_iff_witness:
  "parseDDL [''CREATE TABLE a'', ''foreign key (y) references `b`(id)'', ''create table `b` ('',
             ''  FOREIGN KEY (x) REFERENCES a (id)''] =
     (fmupd ''a'' [''b''] (fmupd ''b'' [''a''] (fmupd ''a'' [] fmempty)),
      fmupd ''b'' 1 (fmupd ''a'' 1 fmempty), [''a'', ''b'']) \<and>
   rangeOrder [''a'', ''b''] (fmupd ''b'' 1 (fmupd ''a'' 1 fmempty)) \<and>
   topologicalSort [''a'', ''b''] (fmupd ''a'' [''b''] (fmupd ''b'' [''a''] (fmupd ''a'' [] fmempty)))
     (fmupd ''b'' 1 (fmupd ''a'' 1 fmempty)) = Inl CyclicDependency \<and>
   \<not> acyclic (edges (fmupd ''a'' [''b''] (fmupd ''b'' [''a''] (fmupd ''a'' [] fmempty))))"
proof -
  have r: "rangeOrder [''a'', ''b''] (fmupd ''b'' 1 (fmupd ''a'' 1 fmempty))"
    by (auto simp: rangeOrder_def)
  have e: "fmdom' (fmupd ''b'' (1::int) (fmupd ''a'' 1 fmempty)) =
        fmdom' (fmupd ''a'' [''b''] (fmupd ''b'' [''a''] (fmupd ''a'' [] fmempty)))"
    by auto
  note t = topologicalSort_fails_iff[OF parse_cycle r]
  from t sort_cycle have "length (sortedSoFar [''a'', ''b'']
      (fmupd ''a'' [''b''] (fmupd ''b'' [''a''] (fmupd ''a'' [] fmempty)))
      (fmupd ''b'' 1 (fmupd ''a'' 1 fmempty))) \<noteq>
      card (fmdom' (fmupd ''a'' [''b''] (fmupd ''b'' [''a''] (fmupd ''a'' [] fmempty))))"
    by blast
  with t e have "\<not> acyclic (edges (fmupd ''a'' [''b''] (fmupd ''b'' [''a''] (fmupd ''a'' [] fmempty))))"
    by blast
  then show ?thesis
    using parse_cycle r sort_cycle by blast
qed

text \<open>
  C7. For the graph and the in-degrees that \<open>parseDDL\<close> extracted and every order in which
  the keys of the in-degree map are visited, the result sequence of the queue loop has
  no duplicates (whether or not the length check then accepts it), so no table is taken
  from the queue twice, and a sequence that \<open>topologicalSort\<close> returns has none.
\<close>

theorem topologicalSort_distinct:
  assumes "parseDDL lines = (g, d, order)" and "rangeOrder ks d"
  shows "distinct (sortedSoFar ks g d) \<and>
         (topologicalSort ks g d = Inr sortedTables \<longrightarrow> distinct sortedTables)"
proof -
  have con: "consistent g d" using assms(1) by (rule parseDDL_consistent)
  have "distinct (sortedSoFar ks g d)" by (rule sorted_distinct(1)[OF con assms(2)])
  then show ?thesis by (auto simp: topologicalSort_eq split: if_splits)
qed

theorem topologicalSort_distinct_witness:
  "parseDDL [''create table `b` ('', ''  FOREIGN KEY (x) REFERENCES a (id)'', ''CREATE TABLE a''] =
     (fmupd ''a'' [''b''] (fmupd ''b'' [] fmempty), fmupd ''a'' 0 (fmupd ''b'' 1 fmempty), [''b'', ''a'']) \<and>
   rangeOrder [''a'', ''b''] (fmupd ''a'' 0 (fmupd ''b'' 1 fmempty)) \<and>
   topologicalSort [''a'', ''b''] (fmupd ''a'' [''b''] (fmupd ''b'' [] fmempty))
     (fmupd ''a'' 0 (fmupd ''b'' 1 fmempty)) = Inr [''a'', ''b''] \<and>
   distinct (sortedSoFar [''a'', ''b''] (fmupd ''a'' [''b''] (fmupd ''b'' [] fmempty))
     (fmupd ''a'' 0 (fmupd ''b'' 1 fmempty))) \<and>
   distinct [''a'', ''b'']"
proof -
  have r: "rangeOrder [''a'', ''b''] (fmupd ''a'' 0 (fmupd ''b'' 1 fmempty))"
    by (auto simp: rangeOrder_def)
  have s: "topologicalSort [''a'', ''b''] (fmupd ''a'' [''b''] (fmupd ''b'' [] fmempty))
     (fmupd ''a'' 0 (fmupd ''b'' 1 fmempty)) = Inr [''a'', ''b'']"
    by (simp add: sort_eval)
  from topologicalSort_distinct[OF parse_b_a r, of "[''a'', ''b'']"] parse_b_a r s
  show ?thesis by blast
qed





lemma parseDDL_preamble:
  assumes "\<forall>l \<in> set pre. FindStringSubmatch TABLE_PATTERN l = None"
  shows "scanDDL pre = parse_init" and "parseDDL (pre @ rest) = parseDDL rest"
proof -
  show s: "scanDDL pre = parse_init"
    unfolding scanDDL_def using assms
    by (intro foldl_parseLine_ignored) (simp_all add: parse_init_def)
  have "scanDDL (pre @ rest) = scanDDL rest"
    using s by (simp add: scanDDL_append) (simp add: scanDDL_def)
  then show "parseDDL (pre @ rest) = parseDDL rest"
    by (simp add: parseDDL_def)
qed



text \<open>
  C8. While no \<^verbatim>\<open>CREATE TABLE\<close> line has been read the current table is unset, and every
  line that is no \<^verbatim>\<open>CREATE TABLE\<close> line, among them the lines that contain "foreign key" and
  match \<^verbatim>\<open>REFERENCES\<close>, leaves the state of \<open>parseDDL\<close> as it was: after such lines the graph
  and the in-degree map are empty, and the result for the whole input is the result for
  the input without them. \<open>parseDDL\<close> has no failure of its own.
\<close>

theorem parseDDL_references_before_table:
  assumes "\<forall>l \<in> set pre. FindStringSubmatch TABLE_PATTERN l = None"
  shows "parseDDL pre = (fmempty, fmempty, []) \<and> parseDDL (pre @ rest) = parseDDL rest"
  using parseDDL_preamble(1)[OF assms] parseDDL_preamble(2)[OF assms, of rest]
  by (simp add: parseDDL_def parse_init_def)

theorem parseDDL_references_before_table_witness:
  "FindStringSubmatch TABLE_PATTERN ''foreign key (y) references `b`(id)'' = None \<and>
   Contains (ToLower (TrimSpace ''foreign key (y) references `b`(id)'')) ''foreign key'' \<and>
   FindStringSubmatch REFERENCES_PATTERN (TrimSpace ''foreign key (y) references `b`(id)'') = Some ''b'' \<and>
   parseDDL [''foreign key (y) references `b`(id)''] = (fmempty, fmempty, []) \<and>
   parseDDL ([''foreign key (y) references `b`(id)''] @ [''CREATE TABLE a'']) =
     parseDDL [''CREATE TABLE a'']"
proof -
  have h1: "FindStringSubmatch TABLE_PATTERN ''foreign key (y) references `b`(id)'' = None"
    by (rule line_eval)
  have h: "\<forall>l \<in> set [''foreign key (y) references `b`(id)''].
      FindStringSubmatch TABLE_PATTERN l = None"
    using h1 by simp
  have f: "Contains (ToLower (TrimSpace ''foreign key (y) references `b`(id)'')) ''foreign key''"
    "FindStringSubmatch REFERENCES_PATTERN (TrimSpace ''foreign key (y) references `b`(id)'') = Some ''b''"
    by (simp_all add: line_eval del: ToLower.simps FindStringSubmatch.simps)
  note t = parseDDL_references_before_table[OF h, of "[''CREATE TABLE a'']"]
  show ?thesis
    by (intro conjI h1 f t[THEN conjunct1] t[THEN conjunct2])
qed




lemma line_comment:
  "TrimSpace ''-- schema'' = ''-- schema''"
  "FindStringSubmatch TABLE_PATTERN ''-- schema'' = None"
  "Contains (ToLower ''-- schema'') ''foreign key'' = False"
  by (simp_all add: string_eval)

lemma line_column:
  "TrimSpace ''  id INT'' = ''id INT''"
  "FindStringSubmatch TABLE_PATTERN ''  id INT'' = None"
  "FindStringSubmatch TABLE_PATTERN ''id INT'' = None"
  "Contains (ToLower ''id INT'') ''foreign key'' = False"
  by (simp_all add: string_eval)


lemmas split_eval =
  splitDDL_def splitLine_def split_init_def reorderDDL_def writeBlocks_def newline_def
  linesText_def afterPreamble_def Let_def



text \<open>
  C6. Lines before the first \<^verbatim>\<open>CREATE TABLE\<close> line belong to no block and are not written:
  the blocks of \<open>reorderDDL\<close>, the output it writes for any order of tables and the result
  of the whole pipeline are those of the input without these lines.
\<close>

theorem reorderDDL_preamble_dropped:
  assumes "\<forall>l \<in> set pre. FindStringSubmatch TABLE_PATTERN l = None"
  shows "splitDDL pre = fmempty \<and> splitDDL (pre @ rest) = splitDDL rest \<and>
         reorderDDL (pre @ rest) sortedTables = reorderDDL rest sortedTables \<and>
         processSQL ks (pre @ rest) = processSQL ks rest"
proof -
  have "splitDDL (pre @ []) = splitDDL []" using assms by (rule splitDDL_preamble)
  then have "splitDDL pre = fmempty" by (simp add: splitDDL_def split_init_def)
  moreover have s: "splitDDL (pre @ rest) = splitDDL rest" using assms by (rule splitDDL_preamble)
  moreover have "parseDDL (pre @ rest) = parseDDL rest" using assms by (rule parseDDL_preamble(2))
  ultimately show ?thesis
    by (simp add: reorderDDL_def processSQL_def split: prod.splits sum.splits)
qed

lemma line_set_names:
  "TrimSpace ''SET NAMES utf8;'' = ''SET NAMES utf8;''"
  "FindStringSubmatch TABLE_PATTERN ''SET NAMES utf8;'' = None"
  "Contains (ToLower ''SET NAMES utf8;'') ''foreign key'' = False"
  by (simp_all add: string_eval)

theorem reorderDDL_preamble_dropped_witness:
  "FindStringSubmatch TABLE_PATTERN ''-- schema'' = None \<and>
   FindStringSubmatch TABLE_PATTERN ''SET NAMES utf8;'' = None \<and>
   splitDDL [''-- schema'', ''SET NAMES utf8;''] = fmempty \<and>
   splitDDL ([''-- schema'', ''SET NAMES utf8;''] @ [''CREATE TABLE a'', ''  id INT'']) =
     splitDDL [''CREATE TABLE a'', ''  id INT''] \<and>
   reorderDDL ([''-- schema'', ''SET NAMES utf8;''] @ [''CREATE TABLE a'', ''  id INT'']) [''a''] =
     reorderDDL [''CREATE TABLE a'', ''  id INT''] [''a''] \<and>
   processSQL [''a''] ([''-- schema'', ''SET NAMES utf8;''] @ [''CREATE TABLE a'', ''  id INT'']) =
     processSQL [''a''] [''CREATE TABLE a'', ''  id INT''] \<and>
   processSQL [''a''] [''CREATE TABLE a'', ''  id INT''] =
     Inr (concat (map (\<lambda>l. l @ newline) [''CREATE TABLE a'', ''  id INT'']))"
proof -
  have h1: "FindStringSubmatch TABLE_PATTERN ''-- schema'' = None"
    and h2: "FindStringSubmatch TABLE_PATTERN ''SET NAMES utf8;'' = None"
    by (rule line_comment, rule line_set_names)
  have h: "\<forall>l \<in> set [''-- schema'', ''SET NAMES utf8;'']. FindStringSubmatch TABLE_PATTERN l = None"
    using h1 h2 by simp
  have p: "parseDDL [''CREATE TABLE a'', ''  id INT''] = (fmupd ''a'' [] fmempty, fmupd ''a'' 0 fmempty, [''a''])"
    by (simp add: parse_eval line_eval line_column del: ToLower.simps FindStringSubmatch.simps)
  have s: "topologicalSort [''a''] (fmupd ''a'' [] fmempty) (fmupd ''a'' 0 fmempty) = Inr [''a'']"
    by (simp add: sort_eval)
  have w: "reorderDDL [''CREATE TABLE a'', ''  id INT''] [''a''] =
      concat (map (\<lambda>l. l @ newline) [''CREATE TABLE a'', ''  id INT''])"
    by (simp add: split_eval line_eval line_column del: FindStringSubmatch.simps)
  have e: "processSQL [''a''] [''CREATE TABLE a'', ''  id INT''] =
     Inr (concat (map (\<lambda>l. l @ newline) [''CREATE TABLE a'', ''  id INT'']))"
    by (simp only: processSQL_def p s w prod.case sum.case)
  note t = reorderDDL_preamble_dropped[OF h, of "[''CREATE TABLE a'', ''  id INT'']" "[''a'']" "[''a'']"]
  show ?thesis
    by (intro conjI h1 h2 e t[THEN conjunct1] t[THEN conjunct2, THEN conjunct1]
        t[THEN conjunct2, THEN conjunct2, THEN conjunct1]
        t[THEN conjunct2, THEN conjunct2, THEN conjunct2])
qed










end
